theory Spec2Isabelle
  imports Main
begin

section \<open>Strings\<close>

text \<open>
  A Python \<open>str\<close> is a sequence of Unicode code points; it is embedded as a list of
  naturals. \<open>py\<close> turns an Isabelle string literal into such a sequence.
\<close>

type_synonym str = "nat list"

definition py :: "string \<Rightarrow> str" where
  "py s = map of_char s"

text \<open>\<open>codecs.encode(s, "rot-13")\<close>: the ASCII letters are rotated by 13, the rest is kept.\<close>

definition rot13_char :: "nat \<Rightarrow> nat" where
  "rot13_char c =
     (if 65 \<le> c \<and> c \<le> 90 then 65 + (c - 65 + 13) mod 26
      else if 97 \<le> c \<and> c \<le> 122 then 97 + (c - 97 + 13) mod 26
      else c)"

definition rot13 :: "str \<Rightarrow> str" where
  "rot13 s = map rot13_char s"

text \<open>\<open>crib.strip("{")\<close> removes the opening braces at both ends of the crib.\<close>

definition strip_braces :: "str \<Rightarrow> str" where
  "strip_braces s = rev (dropWhile (\<lambda>c. c = 123) (rev (dropWhile (\<lambda>c. c = 123) s)))"

text \<open>Lines 67 to 73: every crib character followed by \<open>.{0,2}\<close>, then \<open>\{.*?\}\<close>.\<close>

definition regex_string :: "str \<Rightarrow> str" where
  "regex_string crib = concat (map (\<lambda>c. c # py ''.{0,2}'') crib) @ 92 # py ''{.*?'' @ 92 # py ''}''"

section \<open>Patterns\<close>

text \<open>
  \<open>re.compile\<close> on the part of the pattern language that the three pattern strings can
  reach: literal characters, the dot, escapes, \<open>\s\<close>, character sets, the
  quantifiers with their lazy form, and alternation at top level. Groups and the anchors
  \<open>^\<close> and \<open>$\<close> are outside the embedding (\<open>Unmodelled\<close>).
\<close>

datatype error = PatternError | EncodeError | DecodeError | Unmodelled

datatype atom = Lit nat | AnyChar | Space | CharSet "(nat \<times> nat) list"

datatype item = Item atom nat "nat option" bool

datatype lexeme = Ch nat | Esc nat

text \<open>The tokenizer of the pattern parser: a backslash takes the next character with it.\<close>

fun lex :: "str \<Rightarrow> error + lexeme list" where
  "lex [] = Inr []"
| "lex [c] = (if c = 92 then Inl PatternError else Inr [Ch c])"
| "lex (c # d # r) =
     (if c = 92 then map_sum id (Cons (Esc d)) (lex r)
      else map_sum id (Cons (Ch c)) (lex (d # r)))"

definition is_digit :: "nat \<Rightarrow> bool" where
  "is_digit c = (48 \<le> c \<and> c \<le> 57)"

definition is_alnum :: "nat \<Rightarrow> bool" where
  "is_alnum c = (is_digit c \<or> (65 \<le> c \<and> c \<le> 90) \<or> (97 \<le> c \<and> c \<le> 122))"

definition lex_digit :: "lexeme \<Rightarrow> bool" where
  "lex_digit x = (case x of Ch c \<Rightarrow> is_digit c | Esc d \<Rightarrow> False)"

definition digit_val :: "lexeme \<Rightarrow> nat" where
  "digit_val x = (case x of Ch c \<Rightarrow> c - 48 | Esc d \<Rightarrow> 0)"

definition number :: "lexeme list \<Rightarrow> nat" where
  "number ds = foldl (\<lambda>n d. 10 * n + digit_val d) 0 ds"

text \<open>
  What follows an opening brace: \<open>}\<close> at once, or anything that is not
  \<open>m}\<close>, \<open>m,n}\<close>, \<open>m,}\<close>, \<open>,n}\<close> or \<open>,}\<close>, makes the brace a
  literal (\<open>None\<close>); otherwise the bounds and the rest of the pattern.
\<close>

definition braces :: "lexeme list \<Rightarrow> ((nat \<times> nat option) \<times> lexeme list) option" where
  "braces xs =
     (let lo = takeWhile lex_digit xs; r1 = dropWhile lex_digit xs in
      case r1 of
        [] \<Rightarrow> None
      | x # r2 \<Rightarrow>
          if x = Ch 125 then
            (if lo = [] then None else Some ((number lo, Some (number lo)), r2))
          else if x = Ch 44 then
            (let hi = takeWhile lex_digit r2; r3 = dropWhile lex_digit r2 in
             case r3 of
               [] \<Rightarrow> None
             | y # r4 \<Rightarrow>
                 if y = Ch 125 then
                   Some ((if lo = [] then 0 else number lo,
                          if hi = [] then None else Some (number hi)), r4)
                 else None)
          else None)"

text \<open>The quantifier after an atom, with its lazy mark; no quantifier is \<open>{1,1}\<close>.\<close>

definition lazy_mark :: "nat \<Rightarrow> nat option \<Rightarrow> lexeme list
    \<Rightarrow> error + ((nat \<times> nat option \<times> bool) \<times> lexeme list)" where
  "lazy_mark lo hi xs =
     (if (case hi of None \<Rightarrow> False | Some h \<Rightarrow> h < lo) then Inl PatternError
      else case xs of
        [] \<Rightarrow> Inr ((lo, hi, False), [])
      | x # r \<Rightarrow> if x = Ch 63 then Inr ((lo, hi, True), r) else Inr ((lo, hi, False), x # r))"

definition quantifier :: "lexeme list \<Rightarrow> error + ((nat \<times> nat option \<times> bool) \<times> lexeme list)" where
  "quantifier xs =
     (case xs of
        [] \<Rightarrow> Inr ((1, Some 1, False), [])
      | x # r \<Rightarrow>
          if x = Ch 42 then lazy_mark 0 None r
          else if x = Ch 43 then lazy_mark 1 None r
          else if x = Ch 63 then lazy_mark 0 (Some 1) r
          else if x = Ch 123 then
            (case braces r of
               None \<Rightarrow> Inr ((1, Some 1, False), x # r)
             | Some ((lo, hi), r') \<Rightarrow> lazy_mark lo hi r')
          else Inr ((1, Some 1, False), x # r))"

text \<open>A member of a character set: a character, or an escaped one that is not a class.\<close>

definition set_code :: "lexeme \<Rightarrow> error + nat" where
  "set_code x = (case x of Ch c \<Rightarrow> Inr c | Esc d \<Rightarrow> if is_alnum d then Inl Unmodelled else Inr d)"

definition add_range :: "nat \<times> nat \<Rightarrow> error + ((nat \<times> nat) list \<times> lexeme list)
    \<Rightarrow> error + ((nat \<times> nat) list \<times> lexeme list)" where
  "add_range r res = map_sum id (\<lambda>(rs, rest). (r # rs, rest)) res"

fun set_items :: "bool \<Rightarrow> lexeme list \<Rightarrow> error + ((nat \<times> nat) list \<times> lexeme list)" where
  "set_items first [] = Inl PatternError"
| "set_items first (x # xs) =
     (if x = Ch 93 \<and> \<not> first then Inr ([], xs)
      else case set_code x of
        Inl e \<Rightarrow> Inl e
      | Inr lo \<Rightarrow>
          (case xs of
             Ch d # y # ys \<Rightarrow>
               if d = 45 then
                 (if y = Ch 93 then Inr ([(lo, lo), (45, 45)], ys)
                  else case set_code y of
                    Inl e \<Rightarrow> Inl e
                  | Inr hi \<Rightarrow>
                      if hi < lo then Inl PatternError
                      else add_range (lo, hi) (set_items False ys))
               else add_range (lo, lo) (set_items False xs)
           | _ \<Rightarrow> add_range (lo, lo) (set_items False xs)))"

text \<open>An atom: an escape, the dot, a character set, or a literal character.\<close>

definition parse_atom :: "lexeme \<Rightarrow> lexeme list \<Rightarrow> error + (atom \<times> lexeme list)" where
  "parse_atom x xs =
     (case x of
        Esc d \<Rightarrow>
          if d = 115 then Inr (Space, xs)
          else if is_alnum d then Inl Unmodelled
          else Inr (Lit d, xs)
      | Ch c \<Rightarrow>
          if c = 46 then Inr (AnyChar, xs)
          else if c = 91 then
            (case xs of
               [] \<Rightarrow> Inl PatternError
             | y # ys \<Rightarrow>
                 if y = Ch 94 then Inl Unmodelled
                 else map_sum id (\<lambda>(rs, rest). (CharSet rs, rest)) (set_items True xs))
          else if c = 40 \<or> c = 41 \<or> c = 94 \<or> c = 36 then Inl Unmodelled
          else if c = 42 \<or> c = 43 \<or> c = 63 then Inl PatternError
          else if c = 123 \<and> braces xs \<noteq> None then Inl PatternError
          else Inr (Lit c, xs))"

datatype tok = TItem item | TAlt

definition add_tok :: "tok \<Rightarrow> error + tok list \<Rightarrow> error + tok list" where
  "add_tok t res = map_sum id (Cons t) res"

lemma add_range_Inr: "add_range r res = Inr (rs, rest) \<Longrightarrow> \<exists>rs'. res = Inr (rs', rest)"
  by (cases res) (auto simp: add_range_def)

lemma set_items_rest: "set_items first xs = Inr (rs, rest) \<Longrightarrow> length rest < length xs"
proof (induction xs arbitrary: first rs rule: length_induct)
  case (1 xs)
  have IH: "\<And>ys f r. length ys < length xs \<Longrightarrow> set_items f ys = Inr (r, rest) \<Longrightarrow> length rest < length ys"
    using 1(1) by blast
  show ?case
  proof (cases xs)
    case Nil
    with 1(2) show ?thesis by simp
  next
    case (Cons x xs')
    note p = 1(2)[unfolded Cons]
    have a: "length rest < length xs" if "add_range r (set_items False xs') = Inr (rs, rest)" for r
    proof -
      from add_range_Inr[OF that] obtain rs' where "set_items False xs' = Inr (rs', rest)" by blast
      from IH[OF _ this] Cons show ?thesis by simp
    qed
    have b: "length rest < length xs"
      if "xs' = d # y # ys" "add_range r (set_items False ys) = Inr (rs, rest)" for r d y ys
    proof -
      from add_range_Inr[OF that(2)] obtain rs' where "set_items False ys = Inr (rs', rest)" by blast
      from IH[OF _ this] Cons that(1) show ?thesis by simp
    qed
    show ?thesis
    proof (cases "x = Ch 93 \<and> \<not> first")
      case True
      with p Cons show ?thesis by auto
    next
      case False
      then obtain lo where lo: "set_code x = Inr lo"
        using p by (cases "set_code x") auto
      show ?thesis
      proof (cases "\<exists>y ys. xs' = Ch 45 # y # ys")
        case True
        then obtain y ys where xs: "xs' = Ch 45 # y # ys" by blast
        show ?thesis
        proof (cases "y = Ch 93")
          case True
          with p False lo xs Cons show ?thesis by auto
        next
          case ny: False
          then obtain hi where hi: "set_code y = Inr hi"
            using p False lo xs by (cases "set_code y") auto
          with p False lo xs ny have "add_range (lo, hi) (set_items False ys) = Inr (rs, rest)"
            by (auto split: if_splits)
          from b[OF xs this] show ?thesis .
        qed
      next
        case nd: False
        have "set_items first (x # xs') = add_range (lo, lo) (set_items False xs')"
          using False lo nd by (auto split: list.splits lexeme.splits)
        with p have "add_range (lo, lo) (set_items False xs') = Inr (rs, rest)" by simp
        from a[OF this] show ?thesis .
      qed
    qed
  qed
qed

lemma dropWhile_Cons_length: "dropWhile P xs = y # ys \<Longrightarrow> length ys < length xs"
  using length_dropWhile_le[of P xs] by simp

lemma braces_rest: "braces xs = Some (b, rest) \<Longrightarrow> length rest < length xs"
  unfolding braces_def Let_def
  by (auto split: list.splits if_splits dest!: dropWhile_Cons_length)

lemma lazy_mark_rest: "lazy_mark lo hi xs = Inr (q, rest) \<Longrightarrow> length rest \<le> length xs"
  by (auto simp: lazy_mark_def split: if_splits list.splits)

lemma quantifier_rest: "quantifier xs = Inr (q, rest) \<Longrightarrow> length rest \<le> length xs"
proof (cases xs)
  case Nil
  assume "quantifier xs = Inr (q, rest)"
  with Nil show ?thesis by (simp add: quantifier_def)
next
  case (Cons x r)
  assume a: "quantifier xs = Inr (q, rest)"
  show ?thesis
  proof (cases "braces r")
    case None
    with a Cons show ?thesis
      by (auto simp: quantifier_def split: if_splits dest: lazy_mark_rest)
  next
    case (Some p)
    obtain b r' where p: "p = (b, r')" by (cases p)
    from braces_rest Some p have "length r' < length r" by blast
    with a Cons Some p show ?thesis
      by (auto simp: quantifier_def split: if_splits prod.splits dest: lazy_mark_rest)
  qed
qed

lemma parse_atom_rest: "parse_atom x xs = Inr (a, rest) \<Longrightarrow> length rest \<le> length xs"
proof (cases x)
  case (Esc d)
  assume "parse_atom x xs = Inr (a, rest)"
  with Esc show ?thesis by (auto simp: parse_atom_def split: if_splits)
next
  case (Ch c)
  assume a: "parse_atom x xs = Inr (a, rest)"
  show ?thesis
  proof (cases "c = 91")
    case True
    with a Ch obtain rs where "set_items True xs = Inr (rs, rest)"
      by (cases "set_items True xs") (auto simp: parse_atom_def split: if_splits list.splits)
    from set_items_rest[OF this] show ?thesis by simp
  next
    case False
    with a Ch show ?thesis by (auto simp: parse_atom_def split: if_splits)
  qed
qed

text \<open>
  The items of a pattern from left to right. A quantifier where an atom is expected has
  nothing to repeat, or repeats a quantifier: both are refused.
\<close>

function parse_items :: "lexeme list \<Rightarrow> error + tok list" where
  "parse_items [] = Inr []"
| "parse_items (x # xs) =
     (if x = Ch 124 then add_tok TAlt (parse_items xs)
      else case parse_atom x xs of
        Inl e \<Rightarrow> Inl e
      | Inr (a, r) \<Rightarrow>
          (case quantifier r of
             Inl e \<Rightarrow> Inl e
           | Inr ((lo, hi, lz), r') \<Rightarrow> add_tok (TItem (Item a lo hi lz)) (parse_items r')))"
  by pat_completeness auto

termination
proof (relation "measure length")
  fix x xs p a r q b r' lo c
  assume "parse_atom x xs = Inr p" "(a, r) = p" "quantifier r = Inr q" "(b, r') = q"
  then have "length r \<le> length xs" "length r' \<le> length r"
    using parse_atom_rest[of x xs a r] quantifier_rest[of r b r'] by auto
  then show "(r', x # xs) \<in> measure length" by simp
qed simp_all

fun split_alt :: "tok list \<Rightarrow> item list list" where
  "split_alt [] = [[]]"
| "split_alt (TAlt # ts) = [] # split_alt ts"
| "split_alt (TItem i # ts) = (case split_alt ts of [] \<Rightarrow> [[i]] | b # bs \<Rightarrow> (i # b) # bs)"

definition compile_re :: "str \<Rightarrow> error + item list list" where
  "compile_re s = (case lex s of Inl e \<Rightarrow> Inl e | Inr ls \<Rightarrow> map_sum id split_alt (parse_items ls))"

section \<open>Matching\<close>

text \<open>
  Whitespace as \<open>\s\<close> sees it in a \<open>str\<close> pattern, and the test of one character
  against an atom. The dot takes every character but the line feed.
\<close>

definition is_space :: "nat \<Rightarrow> bool" where
  "is_space c = ((9 \<le> c \<and> c \<le> 13) \<or> (28 \<le> c \<and> c \<le> 32) \<or> c = 133 \<or> c = 160
     \<or> c = 5760 \<or> (8192 \<le> c \<and> c \<le> 8202) \<or> c = 8232 \<or> c = 8233 \<or> c = 8239
     \<or> c = 8287 \<or> c = 12288)"

fun ok :: "atom \<Rightarrow> nat \<Rightarrow> bool" where
  "ok (Lit d) c = (c = d)"
| "ok AnyChar c = (c \<noteq> 10)"
| "ok Space c = is_space c"
| "ok (CharSet rs) c = list_ex (\<lambda>(lo, hi). lo \<le> c \<and> c \<le> hi) rs"

text \<open>
  The numbers of characters a quantified atom may take at the head of the text, in the
  order the engine tries them: a greedy quantifier from the most to the fewest, a lazy
  one from the fewest to the most.
\<close>

definition counts :: "atom \<Rightarrow> nat \<Rightarrow> nat option \<Rightarrow> bool \<Rightarrow> str \<Rightarrow> nat list" where
  "counts a lo hi lz s =
     (let run = length (takeWhile (ok a) s);
          top = (case hi of None \<Rightarrow> run | Some h \<Rightarrow> min h run);
          ks = [lo..<Suc top]
      in if lz then ks else rev ks)"

text \<open>
  All the ways a sequence of items matches at the head of the text, as the lengths
  matched, in the order backtracking reaches them.
\<close>

primrec paths :: "item list \<Rightarrow> str \<Rightarrow> nat list" where
  "paths [] = (\<lambda>s. [0])"
| "paths (i # r) = (\<lambda>s. case i of Item a lo hi lz \<Rightarrow>
     concat (map (\<lambda>k. map ((+) k) (paths r (drop k s))) (counts a lo hi lz s)))"

text \<open>
  The same, with the attempts of one item written as a recursion over the list of
  counts: these are the equations used to evaluate \<open>paths\<close> on a given text.
\<close>

definition alts :: "item list \<Rightarrow> str \<Rightarrow> nat list \<Rightarrow> nat list" where
  "alts r s ks = concat (map (\<lambda>k. map ((+) k) (paths r (drop k s))) ks)"

lemma alts_code [code]:
  "alts r s [] = []"
  "alts r s (k # ks) = map ((+) k) (paths r (drop k s)) @ alts r s ks"
  by (simp_all add: alts_def)

lemma paths_code [code]:
  "paths [] s = [0]"
  "paths (Item a lo hi lz # r) s = alts r s (counts a lo hi lz s)"
  by (simp_all add: alts_def)

text \<open>
  The match at the head of the text: the first way of the first branch that has one.
  After an empty match the next one at the same place has to advance.
\<close>

definition match_here :: "item list list \<Rightarrow> bool \<Rightarrow> str \<Rightarrow> nat option" where
  "match_here bs adv s = find (\<lambda>n. \<not> adv \<or> 0 < n) (concat (map (\<lambda>b. paths b s) bs))"

text \<open>The leftmost match: how many characters are skipped, and how many are matched.\<close>

fun search :: "item list list \<Rightarrow> bool \<Rightarrow> str \<Rightarrow> (nat \<times> nat) option" where
  "search bs adv [] = map_option (Pair 0) (match_here bs adv [])"
| "search bs adv (c # s) =
     (case match_here bs adv (c # s) of
        Some n \<Rightarrow> Some (0, n)
      | None \<Rightarrow> map_option (\<lambda>(i, n). (Suc i, n)) (search bs False s))"

lemma counts_le: "k \<in> set (counts a lo hi lz s) \<Longrightarrow> k \<le> length s"
proof -
  assume "k \<in> set (counts a lo hi lz s)"
  then have "k \<le> length (takeWhile (ok a) s)"
    by (auto simp: counts_def Let_def split: if_splits option.splits)
  also have "\<dots> \<le> length s" by (rule length_takeWhile_le)
  finally show ?thesis .
qed

lemma paths_le: "n \<in> set (paths p s) \<Longrightarrow> n \<le> length s"
proof (induction p arbitrary: n s)
  case Nil
  then show ?case by simp
next
  case (Cons i r)
  obtain a lo hi lz where i: "i = Item a lo hi lz" by (cases i)
  from Cons.prems i obtain k m where k: "k \<in> set (counts a lo hi lz s)"
    and m: "m \<in> set (paths r (drop k s))" and n: "n = k + m" by auto
  from Cons.IH[OF m] counts_le[OF k] n show ?case by simp
qed

lemma match_here_le: "match_here bs adv s = Some n \<Longrightarrow> n \<le> length s"
  by (auto simp: match_here_def find_Some_iff dest!: nth_mem[of _ "concat _"] dest: paths_le)

lemma match_here_adv: "match_here bs True s = Some n \<Longrightarrow> 0 < n"
  by (auto simp: match_here_def find_Some_iff)

lemma search_le: "search bs adv s = Some (i, n) \<Longrightarrow> i + n \<le> length s"
proof (induction s arbitrary: adv i n)
  case Nil
  then show ?case by (auto dest: match_here_le)
next
  case (Cons c s)
  show ?case
  proof (cases "match_here bs adv (c # s)")
    case (Some m)
    with Cons.prems match_here_le[OF Some] show ?thesis by simp
  next
    case None
    with Cons.prems obtain j where "search bs False s = Some (j, n)" "i = Suc j" by auto
    with Cons.IH show ?thesis by fastforce
  qed
qed

lemma search_adv: "search bs True s = Some (i, n) \<Longrightarrow> 0 < i + n"
  by (cases s) (auto split: option.splits dest: match_here_adv)

function findall :: "item list list \<Rightarrow> bool \<Rightarrow> str \<Rightarrow> str list" where
  "findall bs adv s =
     (case search bs adv s of
        None \<Rightarrow> []
      | Some (i, n) \<Rightarrow> take n (drop i s) # findall bs (n = 0) (drop (i + n) s))"
  by pat_completeness auto

termination
proof (relation "measure (\<lambda>(bs, adv, s). 2 * length s + (if adv then 0 else 1))")
  fix bs adv s p i n
  assume a: "search bs adv s = Some p" "(i, n) = p"
  then have s: "search bs adv s = Some (i, n)" by simp
  show "((bs, n = 0, drop (i + n) s), bs, adv, s)
          \<in> measure (\<lambda>(bs, adv, s). 2 * length s + (if adv then 0 else 1))"
  proof (cases "i + n = 0")
    case True
    with search_adv[of bs s i n] s have "\<not> adv" by (cases adv) auto
    with True show ?thesis by simp
  next
    case False
    with search_le[OF s] show ?thesis by auto
  qed
qed simp

section \<open>Codecs\<close>

text \<open>
  \<open>bytes(s, "utf-8")\<close>: the UTF-8 encoding of a sequence of code points. A surrogate
  (and a number that is no code point) cannot be encoded.
\<close>

definition utf8_char :: "nat \<Rightarrow> error + nat list" where
  "utf8_char c =
     (if c < 128 then Inr [c]
      else if c < 2048 then Inr [192 + c div 64, 128 + c mod 64]
      else if c < 65536 then
        (if 55296 \<le> c \<and> c \<le> 57343 then Inl EncodeError
         else Inr [224 + c div 4096, 128 + (c div 64) mod 64, 128 + c mod 64])
      else if c < 1114112 then
        Inr [240 + c div 262144, 128 + (c div 4096) mod 64, 128 + (c div 64) mod 64,
             128 + c mod 64]
      else Inl EncodeError)"

fun utf8_encode :: "str \<Rightarrow> error + nat list" where
  "utf8_encode [] = Inr []"
| "utf8_encode (c # s) =
     (case utf8_char c of
        Inl e \<Rightarrow> Inl e
      | Inr bs \<Rightarrow> map_sum id ((@) bs) (utf8_encode s))"

text \<open>\<open>bytes.decode()\<close>: strict UTF-8, refusing overlong forms and surrogates.\<close>

definition cont :: "nat \<Rightarrow> bool" where
  "cont b = (128 \<le> b \<and> b \<le> 191)"

definition add_cp :: "nat \<Rightarrow> error + str \<Rightarrow> error + str" where
  "add_cp c res = map_sum id (Cons c) res"

fun utf8_decode :: "nat list \<Rightarrow> error + str" where
  "utf8_decode [] = Inr []"
| "utf8_decode (b # bs) =
     (if b < 128 then add_cp b (utf8_decode bs)
      else if 194 \<le> b \<and> b \<le> 223 then
        (case bs of
           c1 # r \<Rightarrow>
             if cont c1 then add_cp ((b - 192) * 64 + (c1 - 128)) (utf8_decode r)
             else Inl DecodeError
         | _ \<Rightarrow> Inl DecodeError)
      else if 224 \<le> b \<and> b \<le> 239 then
        (case bs of
           c1 # c2 # r \<Rightarrow>
             if cont c1 \<and> cont c2 \<and> (b = 224 \<longrightarrow> 160 \<le> c1) \<and> (b = 237 \<longrightarrow> c1 \<le> 159) then
               add_cp ((b - 224) * 4096 + (c1 - 128) * 64 + (c2 - 128)) (utf8_decode r)
             else Inl DecodeError
         | _ \<Rightarrow> Inl DecodeError)
      else if 240 \<le> b \<and> b \<le> 244 then
        (case bs of
           c1 # c2 # c3 # r \<Rightarrow>
             if cont c1 \<and> cont c2 \<and> cont c3 \<and> (b = 240 \<longrightarrow> 144 \<le> c1)
                \<and> (b = 244 \<longrightarrow> c1 \<le> 143) then
               add_cp ((b - 240) * 262144 + (c1 - 128) * 4096 + (c2 - 128) * 64 + (c3 - 128))
                 (utf8_decode r)
             else Inl DecodeError
         | _ \<Rightarrow> Inl DecodeError)
      else Inl DecodeError)"

text \<open>\<open>base64.b64encode\<close>, with the standard alphabet and \<open>=\<close> padding.\<close>

definition b64_char :: "nat \<Rightarrow> nat" where
  "b64_char i =
     (if i < 26 then 65 + i else if i < 52 then 97 + (i - 26)
      else if i < 62 then 48 + (i - 52) else if i = 62 then 43 else 47)"

fun b64encode :: "nat list \<Rightarrow> str" where
  "b64encode [] = []"
| "b64encode [a] = [b64_char (a div 4), b64_char ((a mod 4) * 16), 61, 61]"
| "b64encode [a, b] =
     [b64_char (a div 4), b64_char ((a mod 4) * 16 + b div 16), b64_char ((b mod 16) * 4), 61]"
| "b64encode (a # b # c # r) =
     [b64_char (a div 4), b64_char ((a mod 4) * 16 + b div 16),
      b64_char ((b mod 16) * 4 + c div 64), b64_char (c mod 64)] @ b64encode r"

text \<open>
  \<open>base64.b64decode\<close> as called, without validation: bytes outside the alphabet are
  skipped, a complete padding ends the input, and an incomplete last group is refused.
  The state is the position in the group of four, the padding seen, and the bits left
  over from the last character.
\<close>

definition b64_val :: "nat \<Rightarrow> nat option" where
  "b64_val c =
     (if 65 \<le> c \<and> c \<le> 90 then Some (c - 65)
      else if 97 \<le> c \<and> c \<le> 122 then Some (c - 97 + 26)
      else if 48 \<le> c \<and> c \<le> 57 then Some (c - 48 + 52)
      else if c = 43 then Some 62 else if c = 47 then Some 63 else None)"

definition emit :: "nat \<Rightarrow> error + nat list \<Rightarrow> error + nat list" where
  "emit b res = map_sum id (Cons b) res"

fun a2b_base64 :: "nat \<Rightarrow> nat \<Rightarrow> nat \<Rightarrow> nat list \<Rightarrow> error + nat list" where
  "a2b_base64 q p l [] = (if q \<noteq> 0 then Inl DecodeError else Inr [])"
| "a2b_base64 q p l (c # cs) =
     (if c = 61 then
        (if 2 \<le> q then (if 4 \<le> q + Suc p then Inr [] else a2b_base64 q (Suc p) l cs)
         else a2b_base64 q p l cs)
      else case b64_val c of
        None \<Rightarrow> a2b_base64 q p l cs
      | Some v \<Rightarrow>
          if q = 0 then a2b_base64 1 0 v cs
          else if q = 1 then emit (l * 4 + v div 16) (a2b_base64 2 0 (v mod 16) cs)
          else if q = 2 then emit (l * 16 + v div 4) (a2b_base64 3 0 (v mod 4) cs)
          else emit (l * 64 + v) (a2b_base64 0 0 0 cs))"

definition b64decode :: "nat list \<Rightarrow> error + nat list" where
  "b64decode bs = a2b_base64 0 0 0 bs"

section \<open>The flag search\<close>

text \<open>Lines 77 to 80: the first three characters of the encoded crib, then the fixed part.\<close>

definition base64_string :: "str \<Rightarrow> str" where
  "base64_string enc = take 3 enc @ py ''[+'' @ [92, 92] @ py ''A-Za-z0-9]+[=]{0,2}'' @ [92, 115]"

text \<open>Lines 98 to 100, for one match: to bytes, out of base64, back to text.\<close>

definition decode_match :: "str \<Rightarrow> error + str" where
  "decode_match x =
     (case utf8_encode x of
        Inl e \<Rightarrow> Inl e
      | Inr bs \<Rightarrow> (case b64decode bs of Inl e \<Rightarrow> Inl e | Inr ds \<Rightarrow> utf8_decode ds))"

text \<open>A list comprehension whose body may raise: the first failure ends it.\<close>

fun map_err :: "('a \<Rightarrow> error + 'b) \<Rightarrow> 'a list \<Rightarrow> error + 'b list" where
  "map_err f [] = Inr []"
| "map_err f (x # xs) =
     (case f x of Inl e \<Rightarrow> Inl e | Inr y \<Rightarrow> map_sum id (Cons y) (map_err f xs))"

text \<open>
  \<open>parse_for_flag\<close>, lines 62 to 107, without the printing: the list it returns, or
  the exception that ends it.
\<close>

definition parse_for_flag :: "str \<Rightarrow> str \<Rightarrow> error + str list" where
  "parse_for_flag crib0 text =
     (let crib = strip_braces crib0; regex = regex_string crib in
      case compile_re regex of
        Inl e \<Rightarrow> Inl e
      | Inr plaintext_pattern \<Rightarrow>
      case compile_re (rot13 regex) of
        Inl e \<Rightarrow> Inl e
      | Inr rot13_pattern \<Rightarrow>
      case utf8_encode crib of
        Inl e \<Rightarrow> Inl e
      | Inr crib_bytes \<Rightarrow>
      case compile_re (base64_string (b64encode crib_bytes)) of
        Inl e \<Rightarrow> Inl e
      | Inr base64_pattern \<Rightarrow>
      let plaintext_flags = findall plaintext_pattern False text;
          rot13_flags = findall rot13_pattern False text;
          base64_flags = findall base64_pattern False text
      in case map_err decode_match base64_flags of
        Inl e \<Rightarrow> Inl e
      | Inr decoded \<Rightarrow>
          Inr (map (\<lambda>x. py ''plaintext flag: '' @ x) plaintext_flags
               @ map (\<lambda>x. py ''rot13 flag: '' @ rot13 x) rot13_flags
               @ map (\<lambda>x. py ''base64 flag: '' @ x) decoded))"

section \<open>Properties of the matcher\<close>

lemma run_iff: "k \<le> length (takeWhile P s) \<longleftrightarrow> k \<le> length s \<and> (\<forall>c \<in> set (take k s). P c)"
proof (induction s arbitrary: k)
  case Nil
  then show ?case by simp
next
  case (Cons x s)
  show ?case
  proof (cases k)
    case 0
    then show ?thesis by simp
  next
    case (Suc j)
    with Cons[of j] show ?thesis by auto
  qed
qed

lemma counts_iff:
  "k \<in> set (counts a lo hi lz s) \<longleftrightarrow>
     lo \<le> k \<and> (case hi of None \<Rightarrow> True | Some h \<Rightarrow> k \<le> h) \<and> k \<le> length s
     \<and> (\<forall>c \<in> set (take k s). ok a c)"
proof -
  have "k \<in> set (counts a lo hi lz s) \<longleftrightarrow>
     lo \<le> k \<and> (case hi of None \<Rightarrow> True | Some h \<Rightarrow> k \<le> h) \<and> k \<le> length (takeWhile (ok a) s)"
    by (auto simp: counts_def Let_def split: option.splits)
  then show ?thesis by (simp add: run_iff)
qed

text \<open>The words a sequence of items matches, without the order of the attempts.\<close>

fun accepts :: "item list \<Rightarrow> str \<Rightarrow> bool" where
  "accepts [] w = (w = [])"
| "accepts (Item a lo hi lz # r) w =
     (\<exists>k \<le> length w. lo \<le> k \<and> (case hi of None \<Rightarrow> True | Some h \<Rightarrow> k \<le> h)
        \<and> (\<forall>c \<in> set (take k w). ok a c) \<and> accepts r (drop k w))"

lemma paths_iff: "n \<in> set (paths p s) \<longleftrightarrow> n \<le> length s \<and> accepts p (take n s)"
proof (induction p arbitrary: n s)
  case Nil
  then show ?case by auto
next
  case (Cons i r)
  obtain a lo hi lz where i: "i = Item a lo hi lz" by (cases i)
  show ?case
  proof
    assume "n \<in> set (paths (i # r) s)"
    then obtain k m where k: "k \<in> set (counts a lo hi lz s)"
      and m: "m \<in> set (paths r (drop k s))" and n: "n = k + m" using i by auto
    from m Cons.IH have m': "m \<le> length (drop k s)" "accepts r (take m (drop k s))" by auto
    from k have k': "lo \<le> k" "case hi of None \<Rightarrow> True | Some h \<Rightarrow> k \<le> h" "k \<le> length s"
      "\<forall>c \<in> set (take k s). ok a c" by (auto simp: counts_iff)
    have t: "take k (take n s) = take k s" "drop k (take n s) = take m (drop k s)"
      using n by (simp_all add: min_def drop_take)
    have "n \<le> length s" using n m'(1) k'(3) by simp
    moreover have "accepts (i # r) (take n s)"
      unfolding i accepts.simps
      by (rule exI[of _ k]) (use k' m' t n in auto)
    ultimately show "n \<le> length s \<and> accepts (i # r) (take n s)" by simp
  next
    assume a: "n \<le> length s \<and> accepts (i # r) (take n s)"
    then obtain k where k: "k \<le> length (take n s)" "lo \<le> k"
      "case hi of None \<Rightarrow> True | Some h \<Rightarrow> k \<le> h" "\<forall>c \<in> set (take k (take n s)). ok a c"
      "accepts r (drop k (take n s))" using i by auto
    from k(1) a have kn: "k \<le> n" "k \<le> length s" by auto
    then have t: "take k (take n s) = take k s" "drop k (take n s) = take (n - k) (drop k s)"
      by (simp_all add: min_def drop_take)
    have "k \<in> set (counts a lo hi lz s)" using k kn t by (simp add: counts_iff)
    moreover have "n - k \<in> set (paths r (drop k s))"
      using Cons.IH[of "n - k" "drop k s"] k(5) t a kn by auto
    ultimately show "n \<in> set (paths (i # r) s)" using i kn
      by (auto intro!: bexI[of _ k] image_eqI[of _ _ "n - k"])
  qed
qed

lemma paths_append:
  "paths (p @ q) s = concat (map (\<lambda>k. map ((+) k) (paths q (drop k s))) (paths p s))"
proof (induction p arbitrary: s)
  case Nil
  have "map ((+) 0) (paths q s) = paths q s" by (rule map_idI) simp
  then show ?case by simp
next
  case (Cons i r)
  obtain a lo hi lz where i: "i = Item a lo hi lz" by (cases i)
  define G where "G = (\<lambda>n. map ((+) n) (paths q (drop n s)))"
  have e: "map ((+) k) (concat (map (\<lambda>j. map ((+) j) (paths q (drop j (drop k s)))) ms))
      = concat (map G (map ((+) k) ms))" for k ms
    by (induction ms) (simp_all add: G_def add.assoc add.commute)
  have c: "concat (map G (concat xss)) = concat (map (\<lambda>xs. concat (map G xs)) xss)" for xss
    by (induction xss) simp_all
  have "paths ((i # r) @ q) s
      = concat (map (\<lambda>k. map ((+) k) (paths (r @ q) (drop k s))) (counts a lo hi lz s))"
    by (simp add: i)
  also have "\<dots> = concat (map (\<lambda>k. concat (map G (map ((+) k) (paths r (drop k s)))))
      (counts a lo hi lz s))"
    by (simp only: Cons.IH e)
  also have "\<dots> = concat (map G (paths (i # r) s))"
    by (simp add: i c comp_def)
  finally show ?case by (simp add: G_def)
qed

section \<open>The patterns of a crib without special characters\<close>

definition special :: "nat \<Rightarrow> bool" where
  "special c = (c \<in> {92, 46, 91, 40, 41, 94, 36, 42, 43, 63, 124})"

definition plain :: "str \<Rightarrow> bool" where
  "plain c = list_all (\<lambda>x. \<not> special x) c"

definition once :: "atom \<Rightarrow> item" where
  "once a = Item a 1 (Some 1) False"

definition gap :: item where
  "gap = Item AnyChar 0 (Some 2) False"

definition tail_items :: "item list" where
  "tail_items = [once (Lit 123), Item AnyChar 0 None True, once (Lit 125)]"

definition crib_items :: "str \<Rightarrow> item list" where
  "crib_items c = concat (map (\<lambda>x. [once (Lit x), gap]) c)"

definition fuzzy :: "str \<Rightarrow> item list" where
  "fuzzy c = crib_items c @ tail_items"

lemma py_gap: "py ''.{0,2}'' = [46, 123, 48, 44, 50, 125]"
  by (simp add: py_def)

lemma py_tail: "92 # py ''{.*?'' @ 92 # py ''}'' = [92, 123, 46, 42, 63, 92, 125]"
  by (simp add: py_def)

lemma lex_Ch: "c \<noteq> 92 \<Longrightarrow> lex (c # s) = map_sum id (Cons (Ch c)) (lex s)"
  by (cases s) simp_all

lemma lex_gap:
  "lex (46 # 123 # 48 # 44 # 50 # 125 # s)
     = map_sum id ((@) [Ch 46, Ch 123, Ch 48, Ch 44, Ch 50, Ch 125]) (lex s)"
  by (cases "lex s") (simp_all add: lex_Ch)

lemma lex_tail: "lex [92, 123, 46, 42, 63, 92, 125] = Inr [Esc 123, Ch 46, Ch 42, Ch 63, Esc 125]"
  by simp

definition crib_lex :: "str \<Rightarrow> lexeme list" where
  "crib_lex c = concat (map (\<lambda>x. [Ch x, Ch 46, Ch 123, Ch 48, Ch 44, Ch 50, Ch 125]) c)
     @ [Esc 123, Ch 46, Ch 42, Ch 63, Esc 125]"

lemma lex_regex_string: "92 \<notin> set c \<Longrightarrow> lex (regex_string c) = Inr (crib_lex c)"
proof (induction c)
  case Nil
  then show ?case by (simp add: regex_string_def crib_lex_def py_tail)
next
  case (Cons x c)
  then have "lex (regex_string c) = Inr (crib_lex c)" "x \<noteq> 92" by auto
  moreover have "regex_string (x # c) = x # 46 # 123 # 48 # 44 # 50 # 125 # regex_string c"
    by (simp add: regex_string_def py_gap)
  ultimately show ?case by (simp add: lex_Ch lex_gap crib_lex_def)
qed

lemma braces_gap: "braces (Ch 48 # Ch 44 # Ch 50 # Ch 125 # r) = Some ((0, Some 2), r)"
  by (simp add: braces_def lex_digit_def is_digit_def number_def digit_val_def)

lemma braces_dot: "braces (Ch 46 # r) = None"
  by (simp add: braces_def lex_digit_def is_digit_def)

lemma parse_items_tail:
  "parse_items [Esc 123, Ch 46, Ch 42, Ch 63, Esc 125] = Inr (map TItem tail_items)"
  by (simp add: parse_atom_def quantifier_def lazy_mark_def is_alnum_def is_digit_def add_tok_def
      tail_items_def once_def)

lemma parse_items_gap:
  assumes "r \<noteq> []" "hd r \<noteq> Ch 63"
  shows "parse_items (Ch 46 # Ch 123 # Ch 48 # Ch 44 # Ch 50 # Ch 125 # r)
     = add_tok (TItem gap) (parse_items r)"
proof -
  from assms obtain y ys where r: "r = y # ys" "y \<noteq> Ch 63" by (cases r) auto
  show ?thesis
    by (simp add: parse_atom_def quantifier_def braces_gap lazy_mark_def gap_def r)
qed

lemma parse_items_lit:
  assumes "\<not> special x"
  shows "parse_items (Ch x # Ch 46 # r) = add_tok (TItem (once (Lit x))) (parse_items (Ch 46 # r))"
  using assms
  by (simp add: parse_atom_def quantifier_def braces_dot special_def once_def)

lemma crib_lex_hd: "plain c \<Longrightarrow> crib_lex c \<noteq> [] \<and> hd (crib_lex c) \<noteq> Ch 63"
  by (cases c) (auto simp: crib_lex_def plain_def special_def)

lemma parse_crib_lex: "plain c \<Longrightarrow> parse_items (crib_lex c) = Inr (map TItem (fuzzy c))"
proof (induction c)
  case Nil
  then show ?case using parse_items_tail by (simp add: crib_lex_def fuzzy_def crib_items_def)
next
  case (Cons x c)
  then have p: "plain c" "\<not> special x" by (auto simp: plain_def)
  have e: "crib_lex (x # c) = Ch x # Ch 46 # Ch 123 # Ch 48 # Ch 44 # Ch 50 # Ch 125 # crib_lex c"
    by (simp add: crib_lex_def)
  from crib_lex_hd[OF p(1)] have h: "crib_lex c \<noteq> []" "hd (crib_lex c) \<noteq> Ch 63" by auto
  show ?case
    unfolding e parse_items_lit[OF p(2)] parse_items_gap[OF h] Cons.IH[OF p(1)]
    by (simp add: add_tok_def fuzzy_def crib_items_def)
qed

lemma split_alt_items: "split_alt (map TItem is) = [is]"
  by (induction "is") simp_all

lemma plain_no_backslash: "plain c \<Longrightarrow> 92 \<notin> set c"
  by (auto simp: plain_def special_def list_all_iff)

lemma compile_plain: "plain c \<Longrightarrow> compile_re (regex_string c) = Inr [fuzzy c]"
  by (simp add: compile_re_def lex_regex_string plain_no_backslash parse_crib_lex split_alt_items)

lemma rot13_char_fix: "\<not> (65 \<le> c \<and> c \<le> 90) \<Longrightarrow> \<not> (97 \<le> c \<and> c \<le> 122) \<Longrightarrow> rot13_char c = c"
  by (auto simp: rot13_char_def)

lemma rot13_char_cases:
  "65 \<le> c \<and> c \<le> 77 \<Longrightarrow> rot13_char c = c + 13"
  "78 \<le> c \<and> c \<le> 90 \<Longrightarrow> rot13_char c = c - 13"
  "97 \<le> c \<and> c \<le> 109 \<Longrightarrow> rot13_char c = c + 13"
  "110 \<le> c \<and> c \<le> 122 \<Longrightarrow> rot13_char c = c - 13"
proof -
  have up: "(d - k) mod 26 = d - k" if "d < k + 26" for d k :: nat
    by (rule mod_less) (use that in linarith)
  have down: "(d - k) mod 26 = d - (k + 26)" if "k + 26 \<le> d" "d < k + 52" for d k :: nat
  proof -
    have "(d - k) mod 26 = (d - k - 26) mod 26"
      by (rule le_mod_geq) (use that in linarith)
    also have "\<dots> = d - k - 26"
      by (rule mod_less) (use that in linarith)
    finally show ?thesis by simp
  qed
  show "rot13_char c = c + 13" if "65 \<le> c \<and> c \<le> 77"
    using that up[of c 52] by (simp add: rot13_char_def)
  show "rot13_char c = c - 13" if "78 \<le> c \<and> c \<le> 90"
    using that down[of 52 c] by (simp add: rot13_char_def)
  show "rot13_char c = c + 13" if "97 \<le> c \<and> c \<le> 109"
    using that up[of c 84] by (simp add: rot13_char_def)
  show "rot13_char c = c - 13" if "110 \<le> c \<and> c \<le> 122"
    using that down[of 84 c] by (simp add: rot13_char_def)
qed

lemma letter_cases:
  obtains "65 \<le> c \<and> c \<le> 77" | "78 \<le> c \<and> c \<le> 90" | "97 \<le> c \<and> c \<le> 109"
    | "110 \<le> c \<and> c \<le> (122::nat)" | "\<not> (65 \<le> c \<and> c \<le> 90) \<and> \<not> (97 \<le> c \<and> c \<le> 122)"
  by linarith

lemma rot13_char_invol: "rot13_char (rot13_char c) = c"
proof (cases c rule: letter_cases)
  case 1
  then have "rot13_char c = c + 13" "78 \<le> c + 13 \<and> c + 13 \<le> 90" by (auto simp: rot13_char_cases)
  then show ?thesis using rot13_char_cases(2)[of "c + 13"] by simp
next
  case 2
  then have "rot13_char c = c - 13" "65 \<le> c - 13 \<and> c - 13 \<le> 77" by (auto simp: rot13_char_cases)
  then show ?thesis using rot13_char_cases(1)[of "c - 13"] 2 by simp
next
  case 3
  then have "rot13_char c = c + 13" "110 \<le> c + 13 \<and> c + 13 \<le> 122" by (auto simp: rot13_char_cases)
  then show ?thesis using rot13_char_cases(4)[of "c + 13"] by simp
next
  case 4
  then have "rot13_char c = c - 13" "97 \<le> c - 13 \<and> c - 13 \<le> 109" by (auto simp: rot13_char_cases)
  then show ?thesis using rot13_char_cases(3)[of "c - 13"] 4 by simp
next
  case 5
  then show ?thesis by (simp add: rot13_char_fix)
qed

lemma rot13_char_letter:
  "(65 \<le> rot13_char c \<and> rot13_char c \<le> 90) \<or> (97 \<le> rot13_char c \<and> rot13_char c \<le> 122)
    \<longleftrightarrow> (65 \<le> c \<and> c \<le> 90) \<or> (97 \<le> c \<and> c \<le> 122)"
  by (cases c rule: letter_cases) (auto simp: rot13_char_cases rot13_char_fix)

lemma rot13_regex_string: "rot13 (regex_string c) = regex_string (rot13 c)"
  by (induction c) (simp_all add: regex_string_def rot13_def py_def rot13_char_fix)

lemma rot13_char_special: "special (rot13_char c) \<longleftrightarrow> special c"
  by (cases c rule: letter_cases) (auto simp: rot13_char_cases rot13_char_fix special_def)

lemma plain_rot13: "plain (rot13 c) \<longleftrightarrow> plain c"
  by (simp add: plain_def rot13_def list_all_iff rot13_char_special)

lemma rot13_invol: "rot13 (rot13 s) = s"
  by (simp add: rot13_def comp_def rot13_char_invol map_idI)

section \<open>The crib\<close>

lemma dropWhile_replicate_append: "dropWhile (\<lambda>c. c = x) (replicate m x @ s) = dropWhile (\<lambda>c. c = x) s"
  by (induction m) simp_all

lemma strip_braces_pad: "strip_braces (replicate m 123 @ c @ replicate n 123) = strip_braces c"
proof (cases "dropWhile (\<lambda>c. c = (123::nat)) c = []")
  case True
  then have "\<forall>x \<in> set (c @ replicate n 123). x = 123" by (auto simp: dropWhile_eq_Nil_conv)
  then have e: "dropWhile (\<lambda>c. c = (123::nat)) (c @ replicate n 123) = []"
    unfolding dropWhile_eq_Nil_conv by blast
  have "strip_braces c = []" unfolding strip_braces_def True by simp
  moreover have "strip_braces (replicate m 123 @ c @ replicate n 123) = []"
    unfolding strip_braces_def dropWhile_replicate_append e by simp
  ultimately show ?thesis by simp
next
  case False
  then obtain y where "y \<in> set c" "y \<noteq> 123" by (auto simp: dropWhile_eq_Nil_conv)
  then have "dropWhile (\<lambda>c. c = 123) (c @ replicate n 123)
      = dropWhile (\<lambda>c. c = 123) c @ replicate n 123"
    by (auto simp: dropWhile_append1)
  then show ?thesis
    by (simp add: strip_braces_def dropWhile_replicate_append)
qed

lemma strip_braces_id: "c = [] \<or> (hd c \<noteq> 123 \<and> last c \<noteq> 123) \<Longrightarrow> strip_braces c = c"
proof -
  assume a: "c = [] \<or> (hd c \<noteq> 123 \<and> last c \<noteq> 123)"
  then have "dropWhile (\<lambda>c. c = 123) c = c"
    by (auto simp: dropWhile_eq_self_iff)
  moreover from a have "dropWhile (\<lambda>c. c = 123) (rev c) = rev c"
    by (auto simp: dropWhile_eq_self_iff hd_rev)
  ultimately show ?thesis by (simp add: strip_braces_def)
qed

text \<open>
  C6 (as amended). Before any pattern is built the opening braces at both ends of the
  crib are removed, the leading ones and the trailing ones, and the rest of the crib is
  used as it is: a crib with opening braces added at either end gives the same result,
  and a crib that neither starts nor ends with an opening brace is used unchanged, so
  that a brace in its interior stays in the pattern.
\<close>

theorem strip_both_ends:
  "strip_braces (replicate m 123 @ c @ replicate n 123) = strip_braces c
   \<and> parse_for_flag (replicate m 123 @ c @ replicate n 123) t = parse_for_flag c t
   \<and> (c = [] \<or> (hd c \<noteq> 123 \<and> last c \<noteq> 123) \<longrightarrow> strip_braces c = c)"
  using strip_braces_pad[of m c n] strip_braces_id[of c]
  by (simp add: parse_for_flag_def)

theorem strip_both_ends_witness:
  "strip_braces (replicate 2 123 @ py ''a{b'' @ replicate 1 123) = strip_braces (py ''a{b'')
   \<and> parse_for_flag (replicate 2 123 @ py ''a{b'' @ replicate 1 123) (py ''a{b{x}'')
       = parse_for_flag (py ''a{b'') (py ''a{b{x}'')
   \<and> (hd (py ''a{b'') \<noteq> 123 \<and> last (py ''a{b'') \<noteq> 123)
   \<and> strip_braces (py ''a{b'') = py ''a{b''"
  using strip_both_ends[of 2 "py ''a{b''" 1 "py ''a{b{x}''"]
  by (simp add: py_def)

text \<open>
  The claim as stated, that only the leading braces go and a trailing brace stays in
  the pattern, fails for the crib \<open>FLAG{\<close>: the crib used is \<open>FLAG\<close>, and the text
  \<open>FLAG{x}\<close>, with one brace only, is matched.
\<close>

theorem strip_leading_only_counterexample:
  "strip_braces (py ''FLAG{'') \<noteq> dropWhile (\<lambda>c. c = 123) (py ''FLAG{'')
   \<and> strip_braces (py ''FLAG{'') = py ''FLAG''
   \<and> parse_for_flag (py ''FLAG{'') (py ''FLAG{x}'') = Inr [py ''plaintext flag: FLAG{x}'']"
  by code_simp



section \<open>Matches of the crib pattern\<close>

lemma counts_once:
  "counts (Lit x) (Suc 0) (Some (Suc 0)) False s
     = (case s of [] \<Rightarrow> [] | y # ys \<Rightarrow> if y = x then [Suc 0] else [])"
  by (cases s) (auto simp: counts_def Let_def)

lemma paths_Item:
  "paths (Item a lo hi lz # r) s
     = concat (map (\<lambda>k. map ((+) k) (paths r (drop k s))) (counts a lo hi lz s))"
  by simp

lemma paths_once:
  "paths (once (Lit x) # r) s
     = (case s of [] \<Rightarrow> [] | y # ys \<Rightarrow> if y = x then map Suc (paths r ys) else [])"
  by (cases s) (simp_all add: once_def counts_once)

declare paths.simps(2) [simp del]

lemma concat_first:
  assumes "\<forall>k \<in> set ks. f k = [] \<or> (\<exists>r. f k = v # r)" "\<exists>k \<in> set ks. f k \<noteq> []"
  shows "\<exists>r. concat (map f ks) = v # r"
  using assms
proof (induction ks)
  case Nil
  then show ?case by simp
next
  case (Cons k ks)
  show ?case
  proof (cases "f k = []")
    case True
    with Cons show ?thesis by auto
  next
    case False
    with Cons.prems(1) obtain r where "f k = v # r" by auto
    then show ?thesis by simp
  qed
qed

lemma concat_skip:
  assumes "\<forall>k \<in> set ks1. f k = []"
  shows "concat (map f (ks1 @ ks2)) = concat (map f ks2)"
  using assms by (induction ks1) simp_all

lemma upt_split: "n \<le> m \<Longrightarrow> [0..<Suc m] = [0..<n] @ n # [Suc n..<Suc m]"
proof -
  assume "n \<le> m"
  then obtain d where m: "Suc m = n + Suc d" by (metis add_Suc_right le_iff_add)
  have "[0..<n + Suc d] = [0..<n] @ [n..<n + Suc d]" by (rule upt_add_eq_append) simp
  also have "[n..<n + Suc d] = n # [Suc n..<n + Suc d]" by (rule upt_conv_Cons) simp
  finally show ?thesis by (simp add: m)
qed

text \<open>The lazy body: it ends at the first closing brace, if no line feed comes before.\<close>

lemma lazy_first:
  assumes "125 \<notin> set a" "10 \<notin> set a"
  shows "\<exists>r. paths [Item AnyChar 0 None True, once (Lit 125)] (a @ 125 # post) = (length a + 1) # r"
proof -
  let ?u = "a @ 125 # post"
  let ?f = "\<lambda>k. map ((+) k) (paths [once (Lit 125)] (drop k ?u))"
  define run where "run = length (takeWhile (ok AnyChar) ?u)"
  have "length a \<le> length (takeWhile (ok AnyChar) ?u)"
    unfolding run_iff using assms(2) by auto
  then have run: "length a \<le> run" by (simp add: run_def)
  have ks: "counts AnyChar 0 None True ?u = [0..<length a] @ length a # [Suc (length a)..<Suc run]"
    using upt_split[OF run] by (simp add: counts_def Let_def run_def)
  have f_at: "?f (length a) = [length a + 1]" by (simp add: paths_once)
  have "?f k = []" if "k < length a" for k
  proof -
    from that have "drop k ?u = a ! k # drop (Suc k) a @ 125 # post"
      by (simp add: Cons_nth_drop_Suc)
    moreover have "a ! k \<noteq> 125" using assms(1) that by (metis nth_mem)
    ultimately show ?thesis by (simp add: paths_once)
  qed
  then have z: "\<forall>k \<in> set [0..<length a]. ?f k = []" by simp
  let ?rest = "[Suc (length a)..<Suc run]"
  have "concat (map ?f (counts AnyChar 0 None True ?u)) = concat (map ?f (length a # ?rest))"
    unfolding ks using z by (rule concat_skip)
  also have "\<dots> = (length a + 1) # concat (map ?f ?rest)"
    by (simp only: list.map concat.simps f_at append_Cons append_Nil)
  finally have "paths [Item AnyChar 0 None True, once (Lit 125)] ?u
      = (length a + 1) # concat (map ?f ?rest)"
    by (simp only: paths_Item)
  then show ?thesis by blast
qed

lemma tail_first:
  assumes "125 \<notin> set a" "10 \<notin> set a"
  shows "\<exists>r. paths tail_items (123 # a @ 125 # post) = (length a + 2) # r"
proof -
  from lazy_first[OF assms, of post] obtain r where
    "paths [Item AnyChar 0 None True, once (Lit 125)] (a @ 125 # post) = (length a + 1) # r"
    by blast
  then show ?thesis by (simp add: tail_items_def paths_once)
qed

lemma tail_nil: "s = [] \<or> hd s \<noteq> 123 \<Longrightarrow> paths tail_items s = []"
  by (cases s) (auto simp: tail_items_def paths_once)

lemma accepts_once: "accepts (once (Lit x) # r) w \<longleftrightarrow> (\<exists>w'. w = x # w' \<and> accepts r w')"
proof
  assume "accepts (once (Lit x) # r) w"
  then obtain k where k: "k \<le> length w" "1 \<le> k" "k \<le> 1" "\<forall>c \<in> set (take k w). c = x"
    "accepts r (drop k w)" by (auto simp: once_def)
  then have "k = 1" by simp
  with k show "\<exists>w'. w = x # w' \<and> accepts r w'" by (cases w) auto
next
  assume "\<exists>w'. w = x # w' \<and> accepts r w'"
  then obtain w' where "w = x # w'" "accepts r w'" by blast
  then show "accepts (once (Lit x) # r) w"
    unfolding once_def accepts.simps by (intro exI[of _ 1]) simp
qed

lemma accepts_gap:
  "accepts (gap # r) w \<longleftrightarrow>
     (\<exists>k \<le> 2. k \<le> length w \<and> 10 \<notin> set (take k w) \<and> accepts r (drop k w))"
  unfolding gap_def accepts.simps by auto

lemma crib_items_Cons: "crib_items (x # c) = once (Lit x) # gap # crib_items c"
  by (simp add: crib_items_def)

lemma crib_items_self: "accepts (crib_items c) c"
proof (induction c)
  case Nil
  then show ?case by (simp add: crib_items_def)
next
  case (Cons x c)
  have "accepts (gap # crib_items c) c"
    unfolding accepts_gap by (intro exI[of _ 0]) (simp add: Cons)
  then show ?case by (simp add: crib_items_Cons accepts_once)
qed

lemma brace_position:
  assumes "(123::nat) \<notin> set c" "123 \<notin> set post" "k < length s" "s ! k = 123"
    "s = c @ 123 # body @ 125 # post"
  shows "length c \<le> k \<and> k \<le> length c + length body"
proof -
  have "\<not> k < length c"
  proof
    assume "k < length c"
    then have "s ! k = c ! k" "c ! k \<in> set c" by (simp_all add: assms(5) nth_append)
    with assms(1,4) show False by simp
  qed
  moreover have "\<not> length c + length body < k"
  proof
    assume "length c + length body < k"
    define j where "j = k - (length c + Suc (length body))"
    with \<open>length c + length body < k\<close> have j: "k = length c + Suc (length body) + j"
      by simp
    have "s = (c @ 123 # body) @ 125 # post" by (simp add: assms(5))
    then have e: "s ! k = (125 # post) ! j" by (simp add: j nth_append)
    show False
    proof (cases j)
      case 0
      with e assms(4) show False by simp
    next
      case (Suc i)
      with j assms(3,5) have "i < length post" by simp
      then have "post ! i \<in> set post" by simp
      with e Suc assms(2,4) show False by simp
    qed
  qed
  ultimately show ?thesis by simp
qed

text \<open>
  The crib, a brace, a body without closing brace or line feed, the closing brace, and no
  opening brace after it: the first way the pattern matches ends at that closing brace.
\<close>

lemma fuzzy_first:
  assumes "123 \<notin> set c" "125 \<notin> set body" "10 \<notin> set body" "123 \<notin> set post"
  shows "\<exists>r. paths (fuzzy c) (c @ 123 # body @ 125 # post) = (length c + length body + 2) # r"
proof -
  let ?s = "c @ 123 # body @ 125 # post"
  let ?N = "length c + length body + 2"
  let ?F = "\<lambda>k. map ((+) k) (paths tail_items (drop k ?s))"
  let ?H = "paths (crib_items c) ?s"
  have one: "?F k = [] \<or> (\<exists>r. ?F k = ?N # r)" if "k \<in> set ?H" for k
  proof (cases "k < length ?s \<and> ?s ! k = 123")
    case False
    define t where "t = ?s"
    have "drop k t = [] \<or> hd (drop k t) \<noteq> 123"
    proof (cases "k < length t")
      case True
      with False show ?thesis by (simp add: hd_drop_conv_nth t_def[symmetric])
    next
      case False
      then show ?thesis by simp
    qed
    then have "paths tail_items (drop k t) = []" by (rule tail_nil)
    then show ?thesis by (simp add: t_def)
  next
    case True
    with brace_position[OF assms(1,4), of k ?s body]
    have k: "length c \<le> k" "k \<le> length c + length body" by auto
    define i where "i = k - length c"
    have i: "k = length c + i" "i \<le> length body" using k by (simp_all add: i_def)
    have "?s ! k = ((123 # body) @ (125 # post)) ! i"
      unfolding i(1) using nth_append_length_plus[of c "(123 # body) @ (125 # post)" i] by simp
    also have "\<dots> = (123 # body) ! i"
      using i(2) by (subst nth_append) simp
    finally have "(123 # body) ! i = 123" using True by simp
    moreover have "i < length (123 # body)" using i by simp
    ultimately have "drop i (123 # body) = 123 # drop i body"
      using Cons_nth_drop_Suc[of i "123 # body"] by simp
    moreover have "drop k ?s = drop i ((123 # body) @ (125 # post))"
      by (simp add: i(1))
    moreover have "drop i ((123 # body) @ (125 # post)) = drop i (123 # body) @ (125 # post)"
      using i(2) by (subst drop_append) simp
    ultimately have d: "drop k ?s = 123 # drop i body @ 125 # post" by simp
    have "125 \<notin> set (drop i body)" "10 \<notin> set (drop i body)"
      using assms(2,3) by (auto dest: in_set_dropD)
    from tail_first[OF this, of post] obtain r where
      "paths tail_items (123 # drop i body @ 125 # post) = (length (drop i body) + 2) # r"
      by blast
    with d i show ?thesis by simp
  qed
  have "length c \<in> set ?H"
    unfolding paths_iff using crib_items_self[of c] by simp
  moreover have "?F (length c) \<noteq> []"
    using tail_first[OF assms(2,3), of post] by auto
  ultimately have two: "\<exists>k \<in> set ?H. ?F k \<noteq> []" by blast
  have "\<exists>r. concat (map ?F ?H) = ?N # r"
    by (rule concat_first) (use one two in auto)
  then show ?thesis by (simp only: fuzzy_def paths_append)
qed

section \<open>The first match in a text\<close>

lemma match_here_first: "paths p s = n # r \<Longrightarrow> 0 < n \<Longrightarrow> match_here [p] adv s = Some n"
  by (simp add: match_here_def)

lemma match_here_none: "paths p s = [] \<Longrightarrow> match_here [p] adv s = None"
  by (simp add: match_here_def)

lemma fuzzy_hd: "s = [] \<or> hd s \<noteq> hd (c @ [123]) \<Longrightarrow> paths (fuzzy c) s = []"
proof (cases c)
  case Nil
  assume "s = [] \<or> hd s \<noteq> hd (c @ [123])"
  with Nil show ?thesis using tail_nil[of s] by (simp add: fuzzy_def crib_items_def)
next
  case (Cons x c')
  assume "s = [] \<or> hd s \<noteq> hd (c @ [123])"
  with Cons show ?thesis
    by (cases s) (auto simp: fuzzy_def crib_items_Cons paths_once)
qed

lemma search_skip:
  assumes "\<And>t. t = [] \<or> hd t \<noteq> h \<Longrightarrow> match_here bs False t = None" "h \<notin> set pre"
  shows "search bs False (pre @ s) = map_option (\<lambda>(i, n). (length pre + i, n)) (search bs False s)"
  using assms(2)
proof (induction pre)
  case Nil
  show ?case by (simp add: option.map_ident case_prod_unfold)
next
  case (Cons x pre)
  then have "match_here bs False (x # pre @ s) = None" "h \<notin> set pre"
    using assms(1)[of "x # pre @ s"] by auto
  with Cons.IH show ?case
    by (simp add: option.map_comp comp_def case_prod_unfold)
qed

declare findall.simps [simp del]

lemma search_here: "s \<noteq> [] \<Longrightarrow> match_here bs adv s = Some n \<Longrightarrow> search bs adv s = Some (0, n)"
  by (cases s) simp_all

lemma findall_first:
  assumes "\<And>t. t = [] \<or> hd t \<noteq> h \<Longrightarrow> match_here bs False t = None" "h \<notin> set pre"
    "match_here bs False s = Some n" "0 < n"
  shows "findall bs False (pre @ s) = take n s # findall bs False (drop n s)"
proof -
  from assms(3,4) have "s \<noteq> []" using match_here_le[of bs False s n] by auto
  from search_here[OF this assms(3)] search_skip[OF assms(1,2), of s]
  have sr: "search bs False (pre @ s) = Some (length pre, n)" by simp
  have "findall bs False (pre @ s)
      = take n (drop (length pre) (pre @ s)) # findall bs (n = 0) (drop (length pre + n) (pre @ s))"
    by (subst findall.simps) (simp only: sr option.case prod.case)
  then show ?thesis using assms(4) by simp
qed

text \<open>The first plaintext match of a crib without special characters.\<close>

lemma findall_fuzzy:
  assumes "123 \<notin> set c" "hd (c @ [123]) \<notin> set pre" "125 \<notin> set body" "10 \<notin> set body"
    "123 \<notin> set post"
  shows "\<exists>rest. findall [fuzzy c] False (pre @ c @ 123 # body @ 125 # post)
           = (c @ 123 # body @ [125]) # rest"
proof -
  let ?s = "c @ 123 # body @ 125 # post"
  let ?n = "length c + length body + 2"
  from fuzzy_first[OF assms(1,3,4,5)] obtain r where "paths (fuzzy c) ?s = ?n # r" by blast
  then have m: "match_here [fuzzy c] False ?s = Some ?n" by (intro match_here_first) simp_all
  have none: "match_here [fuzzy c] False t = None" if "t = [] \<or> hd t \<noteq> hd (c @ [123])" for t
    using fuzzy_hd[OF that] by (rule match_here_none)
  have "findall [fuzzy c] False (pre @ ?s) = take ?n ?s # findall [fuzzy c] False (drop ?n ?s)"
    by (rule findall_first[OF none assms(2) m]) simp_all
  moreover have "take ?n ?s = c @ 123 # body @ [125]" by simp
  ultimately show ?thesis by simp
qed

section \<open>The shape of the result\<close>

lemma parse_for_flag_Inr:
  assumes "parse_for_flag crib text = Inr res"
  obtains pp rp bs bp dec where
    "compile_re (regex_string (strip_braces crib)) = Inr pp"
    "compile_re (rot13 (regex_string (strip_braces crib))) = Inr rp"
    "utf8_encode (strip_braces crib) = Inr bs"
    "compile_re (base64_string (b64encode bs)) = Inr bp"
    "map_err decode_match (findall bp False text) = Inr dec"
    "res = map (\<lambda>x. py ''plaintext flag: '' @ x) (findall pp False text)
         @ map (\<lambda>x. py ''rot13 flag: '' @ rot13 x) (findall rp False text)
         @ map (\<lambda>x. py ''base64 flag: '' @ x) dec"
  using assms unfolding parse_for_flag_def Let_def
  by (auto split: sum.splits)

lemma strip_braces_no_brace: "123 \<notin> set c \<Longrightarrow> strip_braces c = c"
  by (rule strip_braces_id) (metis hd_in_set last_in_set)

section \<open>Plaintext flags\<close>

text \<open>
  C1 (as amended). Let the crib be made of characters that are neither special in
  patterns nor opening braces, and let the text be \<open>pre\<close>, the crib, \<open>{\<close>, a body,
  \<open>}\<close>, \<open>post\<close>, where \<open>pre\<close> does not contain the first character of the crib
  (the opening brace, for the empty crib), the body contains neither a closing brace nor a
  line feed, and \<open>post\<close> contains no opening brace. Then a call that returns has, as
  the first entry of its result, the plaintext candidate crib\<open>{\<close>body\<open>}\<close>.
\<close>

theorem plaintext_round_trip:
  assumes "plain c" "123 \<notin> set c" "hd (c @ [123]) \<notin> set pre"
    "125 \<notin> set body" "10 \<notin> set body" "123 \<notin> set post"
    "parse_for_flag c (pre @ c @ 123 # body @ 125 # post) = Inr res"
  shows "\<exists>rest. res = (py ''plaintext flag: '' @ c @ 123 # body @ [125]) # rest"
proof -
  from assms(7) obtain pp rp dec where
    pp: "compile_re (regex_string (strip_braces c)) = Inr pp" and
    res: "res = map (\<lambda>x. py ''plaintext flag: '' @ x)
              (findall pp False (pre @ c @ 123 # body @ 125 # post))
         @ map (\<lambda>x. py ''rot13 flag: '' @ rot13 x)
              (findall rp False (pre @ c @ 123 # body @ 125 # post))
         @ map (\<lambda>x. py ''base64 flag: '' @ x) dec"
    by (rule parse_for_flag_Inr)
  from pp assms(1,2) have "pp = [fuzzy c]"
    by (simp add: strip_braces_no_brace compile_plain)
  moreover from findall_fuzzy[OF assms(2,3,4,5,6)] obtain r where
    "findall [fuzzy c] False (pre @ c @ 123 # body @ 125 # post) = (c @ 123 # body @ [125]) # r"
    by blast
  ultimately show ?thesis using res by simp
qed

theorem plaintext_round_trip_witness:
  "plain (py ''FLAG'') \<and> 123 \<notin> set (py ''FLAG'') \<and> hd (py ''FLAG'' @ [123]) \<notin> set (py ''junk '')
   \<and> 125 \<notin> set (py ''he11o_world'') \<and> 10 \<notin> set (py ''he11o_world'')
   \<and> 123 \<notin> set (py '' more junk'')
   \<and> parse_for_flag (py ''FLAG'') (py ''junk FLAG{he11o_world} more junk'')
       = Inr [py ''plaintext flag: FLAG{he11o_world}'']
   \<and> (\<exists>rest. [py ''plaintext flag: FLAG{he11o_world}'']
         = (py ''plaintext flag: '' @ py ''FLAG'' @ 123 # py ''he11o_world'' @ [125]) # rest)"
proof -
  have t: "py ''junk '' @ py ''FLAG'' @ 123 # py ''he11o_world'' @ 125 # py '' more junk''
      = py ''junk FLAG{he11o_world} more junk''"
    by (simp add: py_def)
  have e: "parse_for_flag (py ''FLAG'') (py ''junk FLAG{he11o_world} more junk'')
      = Inr [py ''plaintext flag: FLAG{he11o_world}'']"
    by code_simp
  have h: "plain (py ''FLAG'')" "123 \<notin> set (py ''FLAG'')"
    "hd (py ''FLAG'' @ [123]) \<notin> set (py ''junk '')"
    "125 \<notin> set (py ''he11o_world'')" "10 \<notin> set (py ''he11o_world'')"
    "123 \<notin> set (py '' more junk'')"
    by (simp_all add: py_def plain_def special_def)
  from plaintext_round_trip[OF h, of "[py ''plaintext flag: FLAG{he11o_world}'']"] e t h
  show ?thesis by simp
qed

text \<open>
  The claim as stated fails when the body runs over a line break: the text contains the
  crib, a brace, the body and the closing brace with nothing in between, and no candidate
  is returned.
\<close>

theorem plaintext_round_trip_counterexample:
  "parse_for_flag (py ''FLAG'') (py ''FLAG'' @ 123 # (py ''a'' @ 10 # py ''b'') @ [125]) = Inr []"
  by code_simp

section \<open>ROT13 flags\<close>

lemma rot13_char_eq_fixed:
  assumes "\<not> (65 \<le> k \<and> k \<le> 90)" "\<not> (97 \<le> k \<and> k \<le> 122)"
  shows "rot13_char x = k \<longleftrightarrow> x = k"
proof
  assume "rot13_char x = k"
  then have "rot13_char (rot13_char x) = rot13_char k" by simp
  then show "x = k" using assms by (simp add: rot13_char_invol rot13_char_fix)
next
  assume "x = k"
  with assms show "rot13_char x = k" by (simp add: rot13_char_fix)
qed

lemma rot13_set_fixed:
  assumes "\<not> (65 \<le> k \<and> k \<le> 90)" "\<not> (97 \<le> k \<and> k \<le> 122)"
  shows "k \<in> set (rot13 s) \<longleftrightarrow> k \<in> set s"
  unfolding rot13_def set_map image_iff using rot13_char_eq_fixed[OF assms] by metis

lemma rot13_Nil: "rot13 [] = []"
  by (simp add: rot13_def)

lemma rot13_append: "rot13 (a @ b) = rot13 a @ rot13 b"
  by (simp add: rot13_def)

lemma rot13_Cons_fixed:
  "\<not> (65 \<le> k \<and> k \<le> 90) \<Longrightarrow> \<not> (97 \<le> k \<and> k \<le> 122) \<Longrightarrow> rot13 (k # s) = k # rot13 s"
  by (simp add: rot13_def rot13_char_fix)

text \<open>
  C5 (as amended). Let the crib be made of characters that are neither special in
  patterns nor opening braces, and let the text be \<open>pre\<close>, the ROT13 encoding of
  crib\<open>{\<close>body\<open>}\<close>, \<open>post\<close>, where \<open>pre\<close> does not contain the first character of
  the encoded crib (the opening brace, for the empty crib), the body contains neither a
  closing brace nor a line feed, and \<open>post\<close> contains no opening brace. Then a call
  that returns has the rot13 candidate crib\<open>{\<close>body\<open>}\<close>, decoded, in its result.
\<close>

theorem rot13_round_trip:
  assumes "plain c" "123 \<notin> set c" "hd (rot13 c @ [123]) \<notin> set pre"
    "125 \<notin> set body" "10 \<notin> set body" "123 \<notin> set post"
    "parse_for_flag c (pre @ rot13 (c @ 123 # body @ [125]) @ post) = Inr res"
  shows "py ''rot13 flag: '' @ c @ 123 # body @ [125] \<in> set res"
proof -
  let ?t = "pre @ rot13 c @ 123 # rot13 body @ 125 # post"
  have t: "pre @ rot13 (c @ 123 # body @ [125]) @ post = ?t"
    by (simp add: rot13_append rot13_Cons_fixed rot13_Nil)
  from assms(7) obtain pp rp dec where
    rp: "compile_re (rot13 (regex_string (strip_braces c))) = Inr rp" and
    res: "res = map (\<lambda>x. py ''plaintext flag: '' @ x) (findall pp False ?t)
         @ map (\<lambda>x. py ''rot13 flag: '' @ rot13 x) (findall rp False ?t)
         @ map (\<lambda>x. py ''base64 flag: '' @ x) dec"
    unfolding t by (rule parse_for_flag_Inr)
  from rp assms(1,2) have "rp = [fuzzy (rot13 c)]"
    by (simp add: strip_braces_no_brace rot13_regex_string compile_plain plain_rot13)
  moreover have "123 \<notin> set (rot13 c)" "125 \<notin> set (rot13 body)" "10 \<notin> set (rot13 body)"
    using assms(2,4,5) by (simp_all add: rot13_set_fixed)
  from findall_fuzzy[OF this(1) assms(3) this(2,3) assms(6)] obtain r where
    "findall [fuzzy (rot13 c)] False ?t = (rot13 c @ 123 # rot13 body @ [125]) # r"
    by blast
  moreover have "rot13 (rot13 c @ 123 # rot13 body @ [125]) = c @ 123 # body @ [125]"
    using rot13_invol[of "c @ 123 # body @ [125]"]
    by (simp add: rot13_append rot13_Cons_fixed rot13_Nil)
  ultimately show ?thesis using res by simp
qed

theorem rot13_round_trip_witness:
  "plain (py ''FLAG'') \<and> 123 \<notin> set (py ''FLAG'') \<and> hd (rot13 (py ''FLAG'') @ [123]) \<notin> set (py ''x '')
   \<and> 125 \<notin> set (py ''test'') \<and> 10 \<notin> set (py ''test'') \<and> 123 \<notin> set (py '' y'')
   \<and> rot13 (py ''FLAG'' @ 123 # py ''test'' @ [125]) = py ''SYNT{grfg}''
   \<and> parse_for_flag (py ''FLAG'') (py ''x SYNT{grfg} y'') = Inr [py ''rot13 flag: FLAG{test}'']
   \<and> py ''rot13 flag: '' @ py ''FLAG'' @ 123 # py ''test'' @ [125]
       \<in> set [py ''rot13 flag: FLAG{test}'']"
proof -
  have r: "rot13 (py ''FLAG'' @ 123 # py ''test'' @ [125]) = py ''SYNT{grfg}''"
    by code_simp
  have t: "py ''x '' @ py ''SYNT{grfg}'' @ py '' y'' = py ''x SYNT{grfg} y''"
    by (simp add: py_def)
  have e: "parse_for_flag (py ''FLAG'') (py ''x SYNT{grfg} y'') = Inr [py ''rot13 flag: FLAG{test}'']"
    by code_simp
  have h: "plain (py ''FLAG'')" "123 \<notin> set (py ''FLAG'')"
    "hd (rot13 (py ''FLAG'') @ [123]) \<notin> set (py ''x '')"
    "125 \<notin> set (py ''test'')" "10 \<notin> set (py ''test'')" "123 \<notin> set (py '' y'')"
    by (simp_all add: py_def plain_def special_def rot13_def rot13_char_def)
  from rot13_round_trip[OF h, of "[py ''rot13 flag: FLAG{test}'']"] e r t h
  show ?thesis by simp
qed

text \<open>
  The claim as stated fails when the body runs over a line break: the text is the ROT13
  encoding of \<open>FLAG{a\<close>, line feed, \<open>b}\<close>, and no candidate is returned.
\<close>

theorem rot13_round_trip_counterexample:
  "parse_for_flag (py ''FLAG'') (rot13 (py ''FLAG'' @ 123 # (py ''a'' @ 10 # py ''b'') @ [125]))
     = Inr []"
  by code_simp

section \<open>What a candidate looks like\<close>

lemma match_here_accepts:
  assumes "match_here bs adv s = Some n"
  shows "\<exists>b \<in> set bs. accepts b (take n s)"
proof -
  from assms obtain i where "i < length (concat (map (\<lambda>b. paths b s) bs))"
    "n = concat (map (\<lambda>b. paths b s) bs) ! i"
    unfolding match_here_def find_Some_iff by blast
  then have "n \<in> set (concat (map (\<lambda>b. paths b s) bs))"
    using nth_mem by blast
  then obtain b where "b \<in> set bs" "n \<in> set (paths b s)" by auto
  then show ?thesis by (auto simp: paths_iff)
qed

lemma search_accepts:
  "search bs adv s = Some (i, n) \<Longrightarrow> \<exists>b \<in> set bs. accepts b (take n (drop i s))"
proof (induction s arbitrary: adv i)
  case Nil
  then have "match_here bs adv [] = Some n" "i = 0" by auto
  with match_here_accepts[of bs adv "[]" n] show ?case by simp
next
  case (Cons c s)
  show ?case
  proof (cases "match_here bs adv (c # s)")
    case (Some m)
    with Cons.prems have "i = 0" "m = n" by auto
    with match_here_accepts[OF Some] show ?thesis by simp
  next
    case None
    with Cons.prems obtain j where "search bs False s = Some (j, n)" "i = Suc j" by auto
    with Cons.IH show ?thesis by fastforce
  qed
qed

text \<open>Every string \<open>findall\<close> returns is matched by a branch of the pattern.\<close>

lemma findall_accepts: "x \<in> set (findall bs adv s) \<Longrightarrow> \<exists>b \<in> set bs. accepts b x"
proof (induction bs adv s rule: findall.induct)
  case (1 bs adv s)
  show ?case
  proof (cases "search bs adv s")
    case None
    with "1.prems" show ?thesis by (subst (asm) findall.simps) simp
  next
    case (Some p)
    obtain i n where p: "p = (i, n)" by (cases p)
    from "1.prems" Some p have "x = take n (drop i s) \<or> x \<in> set (findall bs (n = 0) (drop (i + n) s))"
      by (subst (asm) findall.simps) auto
    then show ?thesis
    proof
      assume "x = take n (drop i s)"
      with search_accepts[of bs adv s i n] Some p show ?thesis by simp
    next
      assume "x \<in> set (findall bs (n = 0) (drop (i + n) s))"
      with "1.IH"[OF Some p[symmetric]] show ?thesis by simp
    qed
  qed
qed

lemma accepts_suffix: "accepts (p @ q) w \<Longrightarrow> \<exists>k \<le> length w. accepts q (drop k w)"
proof (induction p arbitrary: w)
  case Nil
  then show ?case by (intro exI[of _ 0]) simp
next
  case (Cons i r)
  obtain a lo hi lz where i: "i = Item a lo hi lz" by (cases i)
  from Cons.prems obtain k where k: "k \<le> length w" "accepts (r @ q) (drop k w)"
    by (auto simp: i)
  from Cons.IH[OF k(2)] obtain m where m: "m \<le> length (drop k w)" "accepts q (drop m (drop k w))"
    by blast
  show ?case
  proof (intro exI[of _ "m + k"] conjI)
    show "m + k \<le> length w" using k(1) m(1) by simp
    show "accepts q (drop (m + k) w)" using m(2) by simp
  qed
qed

lemma accepts_tail: "accepts tail_items w \<Longrightarrow> \<exists>b. w = 123 # b @ [125]"
proof -
  assume "accepts tail_items w"
  then obtain w' where w: "w = 123 # w'" "accepts [Item AnyChar 0 None True, once (Lit 125)] w'"
    by (auto simp: tail_items_def accepts_once)
  then obtain k where "k \<le> length w'" "accepts [once (Lit 125)] (drop k w')" by auto
  then have "drop k w' = [125]" by (auto simp: accepts_once)
  then have "w' = take k w' @ [125]" by (metis append_take_drop_id)
  with w(1) show ?thesis by blast
qed

lemma accepts_fuzzy: "accepts (fuzzy c) w \<Longrightarrow> \<exists>a b. w = a @ 123 # b @ [125]"
proof -
  assume "accepts (fuzzy c) w"
  then obtain k where "accepts tail_items (drop k w)"
    unfolding fuzzy_def by (blast dest: accepts_suffix)
  from accepts_tail[OF this] obtain b where "drop k w = 123 # b @ [125]" by blast
  then have "w = take k w @ 123 # b @ [125]" by (metis append_take_drop_id)
  then show ?thesis by blast
qed

text \<open>A brace-delimited body: an opening brace, and a closing brace somewhere after it.\<close>

definition brace_body :: "str \<Rightarrow> bool" where
  "brace_body v = (125 \<in> set (dropWhile (\<lambda>c. c \<noteq> 123) v))"

lemma brace_bodyI: "v = a @ 123 # b @ [125] \<Longrightarrow> brace_body v"
  by (simp add: brace_body_def dropWhile_append)

lemma set_strip_braces: "set (strip_braces c) \<subseteq> set c"
proof -
  have "set (strip_braces c) \<subseteq> set (dropWhile (\<lambda>c. c = 123) c)"
    unfolding strip_braces_def set_rev
    by (metis set_dropWhileD set_rev subsetI)
  also have "\<dots> \<subseteq> set c" by (meson set_dropWhileD subsetI)
  finally show ?thesis .
qed

lemma plain_strip: "plain c \<Longrightarrow> plain (strip_braces c)"
  using set_strip_braces[of c] by (auto simp: plain_def list_all_iff)

lemma label_heads:
  "py ''plaintext flag: '' = 112 # tl (py ''plaintext flag: '')"
  "py ''rot13 flag: '' = 114 # tl (py ''rot13 flag: '')"
  "py ''base64 flag: '' = 98 # tl (py ''base64 flag: '')"
  by (simp_all add: py_def)

lemma label_distinct:
  "py ''plaintext flag: '' @ u \<noteq> py ''rot13 flag: '' @ v"
  "py ''base64 flag: '' @ u \<noteq> py ''plaintext flag: '' @ v"
  "py ''base64 flag: '' @ u \<noteq> py ''rot13 flag: '' @ v"
  by (simp_all add: py_def)

text \<open>
  C8 (as amended). For every crib made of characters that are not special in patterns,
  and every text, each plaintext and each rot13 candidate in the result of a call has a
  value with a brace-delimited body: an opening brace and a closing brace after it.
\<close>

theorem candidates_have_braces:
  assumes "plain c" "parse_for_flag c t = Inr res" "x \<in> set res"
    "x = py ''plaintext flag: '' @ v \<or> x = py ''rot13 flag: '' @ v"
  shows "brace_body v"
proof -
  let ?c = "strip_braces c"
  from assms(2) obtain pp rp dec where
    pp: "compile_re (regex_string ?c) = Inr pp" and
    rp: "compile_re (rot13 (regex_string ?c)) = Inr rp" and
    res: "res = map (\<lambda>x. py ''plaintext flag: '' @ x) (findall pp False t)
         @ map (\<lambda>x. py ''rot13 flag: '' @ rot13 x) (findall rp False t)
         @ map (\<lambda>x. py ''base64 flag: '' @ x) dec"
    by (rule parse_for_flag_Inr)
  have pc: "plain ?c" using assms(1) by (rule plain_strip)
  from pp pc have pp': "pp = [fuzzy ?c]" by (simp add: compile_plain)
  from rp pc have rp': "rp = [fuzzy (rot13 ?c)]"
    by (simp add: rot13_regex_string compile_plain plain_rot13)
  from assms(3) res consider
      m where "m \<in> set (findall pp False t)" "x = py ''plaintext flag: '' @ m"
    | m where "m \<in> set (findall rp False t)" "x = py ''rot13 flag: '' @ rot13 m"
    | d where "x = py ''base64 flag: '' @ d"
    by auto
  then show ?thesis
  proof cases
    case 1
    with assms(4) have "v = m" using label_distinct(1)[of m v] by auto
    moreover from findall_accepts[OF 1(1)] pp' have "accepts (fuzzy ?c) m" by simp
    from accepts_fuzzy[OF this] obtain a b where "m = a @ 123 # b @ [125]" by blast
    ultimately show ?thesis by (auto intro: brace_bodyI)
  next
    case 2
    with assms(4) have v: "v = rot13 m" using label_distinct(1)[of v "rot13 m"] by auto
    from findall_accepts[OF 2(1)] rp' have "accepts (fuzzy (rot13 ?c)) m" by simp
    from accepts_fuzzy[OF this] obtain a b where "m = a @ 123 # b @ [125]" by blast
    then have "v = rot13 a @ 123 # rot13 b @ [125]"
      by (simp add: v rot13_append rot13_Cons_fixed rot13_Nil)
    then show ?thesis by (rule brace_bodyI)
  next
    case 3
    with assms(4) show ?thesis using label_distinct(2,3)[of d v] by auto
  qed
qed

theorem candidates_have_braces_witness:
  "plain (py ''FLAG'')
   \<and> parse_for_flag (py ''FLAG'') (py ''FLAG{a} SYNT{o}'')
       = Inr [py ''plaintext flag: FLAG{a}'', py ''rot13 flag: FLAG{b}'']
   \<and> py ''rot13 flag: FLAG{b}'' \<in> set [py ''plaintext flag: FLAG{a}'', py ''rot13 flag: FLAG{b}'']
   \<and> py ''rot13 flag: FLAG{b}'' = py ''rot13 flag: '' @ py ''FLAG{b}''
   \<and> brace_body (py ''FLAG{b}'')"
proof -
  have e: "parse_for_flag (py ''FLAG'') (py ''FLAG{a} SYNT{o}'')
      = Inr [py ''plaintext flag: FLAG{a}'', py ''rot13 flag: FLAG{b}'']"
    by code_simp
  have h: "plain (py ''FLAG'')" by (simp add: py_def plain_def special_def)
  have m: "py ''rot13 flag: FLAG{b}'' \<in> set [py ''plaintext flag: FLAG{a}'', py ''rot13 flag: FLAG{b}'']"
    by simp
  have v: "py ''rot13 flag: FLAG{b}'' = py ''rot13 flag: '' @ py ''FLAG{b}''"
    by (simp add: py_def)
  from candidates_have_braces[OF h e m, of "py ''FLAG{b}''"] v e h m
  show ?thesis by simp
qed

text \<open>
  The claim as stated fails for a crib with an alternation bar: the crib \<open>a|b\<close> gives a
  pattern whose first branch has no braces, and the text \<open>abc\<close> is returned as a
  plaintext candidate.
\<close>

theorem candidates_have_braces_counterexample:
  "parse_for_flag (py ''a|b'') (py ''abc'') = Inr [py ''plaintext flag: abc'']
   \<and> \<not> brace_body (py ''abc'')"
  by code_simp

section \<open>The order of the result\<close>






end
